theory Spec2Isabelle
  imports Complex_Main "HOL-Library.Word" "HOL-Library.AList"
begin

section \<open>The consistent-hash ring of package hashring\<close>

text \<open>
  The theory embeds \<^verbatim>\<open>go/exp/container/hashring/hashring.go\<close>. A ring position is a
  \<^verbatim>\<open>uint32\<close>. The Go maps are association lists with distinct keys: \<^verbatim>\<open>nodeByKey\<close> is
  read through \<open>map_of\<close> and written through \<open>AList.update\<close> and \<open>AList.delete\<close>; the set
  \<^verbatim>\<open>allNodes\<close> is a list without repetitions, whose order stands for the (unspecified)
  iteration order of the Go map. Go's \<^verbatim>\<open>int\<close> is \<open>int\<close>; the overflow of a counter after
  \<open>2^63\<close> increments is not modelled.
\<close>

type_synonym u32 = "32 word"

text \<open>
  The hash algorithm and the node key formatter are capabilities the ring is configured
  with. The two methods that apply them, \<^verbatim>\<open>getIterateHashKeyForNode\<close> and \<^verbatim>\<open>getHashKey\<close>,
  are parameters here, as is the zero value of the node type and the
  implementation-dependent integer that Go yields when a non-finite \<^verbatim>\<open>float64\<close> is
  converted to \<^verbatim>\<open>int\<close>.
\<close>

record 'node caps =
  getIterateHashKeyForNode :: "'node \<Rightarrow> int \<Rightarrow> u32 list"
  getHashKey :: "string \<Rightarrow> u32"
  FormatNodeKey :: "'node \<Rightarrow> int \<Rightarrow> string"
  zeroN :: "'node"
  nonFiniteToInt :: int

record 'node HashRing =
  sortedKeys :: "u32 list"
  nodeByKey :: "(u32 \<times> 'node) list"
  allNodes :: "'node list"
  weightByNode :: "('node \<times> int) list"
  isWeighted :: bool
  numReps :: int

datatype error = IndexOutOfRange

subsection \<open>Construction, clearing, node identity\<close>

definition defaultNumReps :: int where
  "defaultNumReps = 160"

text \<open>\<^verbatim>\<open>New\<close> after its options: the options choose the replica count, the weights and the
  mode; the mode is switched off when no weight was given.\<close>

definition New :: "int \<Rightarrow> ('node \<times> int) list \<Rightarrow> bool \<Rightarrow> 'node HashRing" where
  "New reps weights weighted =
     \<lparr>sortedKeys = [], nodeByKey = [], allNodes = [], weightByNode = weights,
      isWeighted = (if weighted \<and> length weights = 0 then False else weighted),
      numReps = reps\<rparr>"

definition RemoveAllNodes :: "'node HashRing \<Rightarrow> 'node HashRing" where
  "RemoveAllNodes c = c\<lparr>sortedKeys := [], nodeByKey := [], allNodes := []\<rparr>"

definition isSameNode :: "'node caps \<Rightarrow> 'node \<Rightarrow> 'node \<Rightarrow> bool" where
  "isSameNode k n1 n2 \<longleftrightarrow> FormatNodeKey k n1 0 = FormatNodeKey k n2 0"

definition getAllNodes :: "'node HashRing \<Rightarrow> 'node list" where
  "getAllNodes c = allNodes c"

definition updateSortedNodes :: "'node HashRing \<Rightarrow> 'node HashRing" where
  "updateSortedNodes c = c\<lparr>sortedKeys := sort (map fst (nodeByKey c))\<rparr>"

subsection \<open>Searching the ring\<close>

text \<open>The comparison \<^verbatim>\<open>tailSearch\<close> hands to \<^verbatim>\<open>slices.BinarySearchFunc\<close>, and the loop of
  that library function: it narrows \<open>[i, j)\<close> and answers \<open>i\<close>, found when \<open>i\<close> is an
  index whose entry compares equal.\<close>

definition tailCmp :: "u32 \<Rightarrow> u32 \<Rightarrow> int" where
  "tailCmp v key = (if v \<ge> key then 0 else -1)"

function BinarySearchLoop :: "u32 list \<Rightarrow> u32 \<Rightarrow> nat \<Rightarrow> nat \<Rightarrow> nat" where
  "BinarySearchLoop x target i j =
     (if i < j then
        (let h = (i + j) div 2 in
         if tailCmp (x ! h) target < 0 then BinarySearchLoop x target (h + 1) j
         else BinarySearchLoop x target i h)
      else i)"
  by pat_completeness auto
termination
  by (relation "measure (\<lambda>(x, target, i, j). j - i)") auto

declare BinarySearchLoop.simps [simp del]

definition BinarySearchFunc :: "u32 list \<Rightarrow> u32 \<Rightarrow> nat \<times> bool" where
  "BinarySearchFunc x target =
     (let n = length x; i = BinarySearchLoop x target 0 n
      in (i, i < n \<and> tailCmp (x ! i) target = 0))"

definition tailSearch :: "'node HashRing \<Rightarrow> u32 \<Rightarrow> nat \<times> bool" where
  "tailSearch c key = BinarySearchFunc (sortedKeys c) key"

text \<open>Indexing \<^verbatim>\<open>sortedKeys\<close> out of range panics; a key missing from the Go map reads
  as the zero node.\<close>

definition getNodeByHashKeyIndex :: "'node caps \<Rightarrow> 'node HashRing \<Rightarrow> nat \<Rightarrow> error + 'node" where
  "getNodeByHashKeyIndex k c keyIndex =
     (if keyIndex < length (sortedKeys c) then
        (case map_of (nodeByKey c) (sortedKeys c ! keyIndex) of
           Some n \<Rightarrow> Inr n
         | None \<Rightarrow> Inr (zeroN k))
      else Inl IndexOutOfRange)"

definition getNodeByHashKey :: "'node caps \<Rightarrow> 'node HashRing \<Rightarrow> u32 \<Rightarrow> error + ('node \<times> bool)" where
  "getNodeByHashKey k c hash =
     (if length (sortedKeys c) = 0 then Inr (zeroN k, False)
      else case map_of (nodeByKey c) hash of
        Some rv \<Rightarrow> Inr (rv, True)
      | None \<Rightarrow>
          (let (firstKey, found) = tailSearch c hash;
               firstKey = (if \<not> found then 0 else firstKey)
           in case getNodeByHashKeyIndex k c firstKey of
                Inl e \<Rightarrow> Inl e
              | Inr n \<Rightarrow> Inr (n, True)))"

definition getPrimaryNode :: "'node caps \<Rightarrow> 'node HashRing \<Rightarrow> string \<Rightarrow> error + ('node \<times> bool)" where
  "getPrimaryNode k c name = getNodeByHashKey k c (getHashKey k name)"

definition Get :: "'node caps \<Rightarrow> 'node HashRing \<Rightarrow> string \<Rightarrow> error + ('node \<times> bool)" where
  "Get k c name =
     (if length (nodeByKey c) = 0 then Inr (zeroN k, False)
      else getPrimaryNode k c name)"

subsection \<open>Traversal\<close>

text \<open>
  The loop of \<^verbatim>\<open>GetSince\<close>, \<^verbatim>\<open>for i := start + 1; i != start; i++\<close>, with a consumer that
  takes every node. At \<open>i \<ge> len\<close> the source sets \<open>i\<close> to \<open>-1\<close> and continues, so the next
  test sees \<open>i = 0\<close>. The function is entered with \<open>start\<close> an index of \<^verbatim>\<open>sortedKeys\<close>
  (the read of the first node has panicked otherwise); the first test below only makes
  the recursion total.
\<close>

function sinceLoop ::
  "'node caps \<Rightarrow> 'node HashRing \<Rightarrow> nat \<Rightarrow> nat \<Rightarrow> 'node list \<Rightarrow> 'node list \<Rightarrow> error + 'node list"
where
  "sinceLoop k c start i nodesSet yielded =
     (if length (sortedKeys c) \<le> start then Inl IndexOutOfRange
      else if i = start then Inr yielded
      else if i \<ge> length (sortedKeys c) then sinceLoop k c start 0 nodesSet yielded
      else
        (case getNodeByHashKeyIndex k c i of
           Inl e \<Rightarrow> Inl e
         | Inr secondNode \<Rightarrow>
             if secondNode \<notin> set nodesSet
             then sinceLoop k c start (i + 1) (secondNode # nodesSet) (yielded @ [secondNode])
             else sinceLoop k c start (i + 1) nodesSet yielded))"
  by pat_completeness auto
termination
  by (relation "measure (\<lambda>(k, c, start, i, nodesSet, yielded).
        if i \<le> start then start - i else start + 1 + (length (sortedKeys c) - i))") auto

declare sinceLoop.simps [simp del]

definition GetSince :: "'node caps \<Rightarrow> 'node HashRing \<Rightarrow> string \<Rightarrow> error + 'node list" where
  "GetSince k c name =
     (if length (nodeByKey c) = 0 then Inr []
      else
        (let (firstKey, found) = tailSearch c (getHashKey k name);
             firstKey = (if \<not> found then 0 else firstKey)
         in case getNodeByHashKeyIndex k c firstKey of
              Inl e \<Rightarrow> Inl e
            | Inr firstNode \<Rightarrow> sinceLoop k c firstKey (firstKey + 1) [firstNode] [firstNode]))"

subsection \<open>Unweighted placement and removal\<close>

text \<open>The inner loop of \<^verbatim>\<open>addNodeWithoutSort\<close> over one batch of positions; it returns
  the budget and the table.\<close>

fun addPositions ::
  "'node \<Rightarrow> int \<Rightarrow> int \<Rightarrow> u32 list \<Rightarrow> int \<Rightarrow> (u32 \<times> 'node) list \<Rightarrow> int \<times> (u32 \<times> 'node) list"
where
  "addPositions node i j [] reps tbl = (reps, tbl)"
| "addPositions node i j (pos # rest) reps tbl =
     (if i + j > reps then (reps, tbl)
      else if map_of tbl pos \<noteq> None then addPositions node i (j + 1) rest (reps + 1) tbl
      else addPositions node i (j + 1) rest reps (AList.update pos node tbl))"

text \<open>The outer loop. Nothing bounds the growth of the budget, so the loop need not
  end: \<open>None\<close> is the run that never returns. On an empty batch the source increments
  both counters and then leaves the loop with \<^verbatim>\<open>break\<close>; the counters are locals, so only
  the table is returned.\<close>

partial_function (option) addNodeLoop ::
  "'node caps \<Rightarrow> 'node \<Rightarrow> int \<Rightarrow> int \<Rightarrow> (u32 \<times> 'node) list \<Rightarrow> (u32 \<times> 'node) list option"
where
  "addNodeLoop k node i reps tbl =
     (if i < reps then
        (if length (getIterateHashKeyForNode k node i) = 0 then Some tbl
         else addNodeLoop k node (i + int (length (getIterateHashKeyForNode k node i)))
                (fst (addPositions node i 0 (getIterateHashKeyForNode k node i) reps tbl))
                (snd (addPositions node i 0 (getIterateHashKeyForNode k node i) reps tbl)))
      else Some tbl)"

declare addNodeLoop.simps [code]

definition insertNode :: "'node \<Rightarrow> 'node list \<Rightarrow> 'node list" where
  "insertNode node ns = (if node \<in> set ns then ns else ns @ [node])"

definition addNodeWithoutSort ::
  "'node caps \<Rightarrow> 'node HashRing \<Rightarrow> 'node \<Rightarrow> int \<Rightarrow> 'node HashRing option" where
  "addNodeWithoutSort k c node reps =
     (case addNodeLoop k node 0 reps (nodeByKey c) of
        None \<Rightarrow> None
      | Some tbl \<Rightarrow> Some (c\<lparr>nodeByKey := tbl, allNodes := insertNode node (allNodes c)\<rparr>))"

fun addEach :: "'node caps \<Rightarrow> int \<Rightarrow> 'node list \<Rightarrow> 'node HashRing \<Rightarrow> 'node HashRing option" where
  "addEach k reps [] c = Some c"
| "addEach k reps (node # rest) c =
     (case addNodeWithoutSort k c node reps of
        None \<Rightarrow> None
      | Some c' \<Rightarrow> addEach k reps rest c')"

definition addNoWeightNodes ::
  "'node caps \<Rightarrow> 'node HashRing \<Rightarrow> 'node list \<Rightarrow> 'node HashRing option" where
  "addNoWeightNodes k c nodes = map_option updateSortedNodes (addEach k (numReps c) nodes c)"

text \<open>The inner loop of \<^verbatim>\<open>removeNoWeightNodes\<close> over one batch.\<close>

fun removePositions ::
  "'node caps \<Rightarrow> 'node \<Rightarrow> int \<Rightarrow> int \<Rightarrow> u32 list \<Rightarrow> int \<Rightarrow> (u32 \<times> 'node) list
     \<Rightarrow> int \<times> (u32 \<times> 'node) list"
where
  "removePositions k node i j [] reps tbl = (reps, tbl)"
| "removePositions k node i j (pos # rest) reps tbl =
     (if i + j > reps then (reps, tbl)
      else case map_of tbl pos of
        Some n \<Rightarrow>
          if \<not> isSameNode k n node then removePositions k node i (j + 1) rest (reps + 1) tbl
          else removePositions k node i (j + 1) rest reps (AList.delete pos tbl)
      | None \<Rightarrow> removePositions k node i (j + 1) rest reps tbl)"

text \<open>The loop over the replica indices of one node. An empty batch is passed over with
  \<^verbatim>\<open>continue\<close>. The budget is declared outside the loop over the nodes, so it is
  returned for the next node.\<close>

partial_function (option) removeNodeLoop ::
  "'node caps \<Rightarrow> 'node \<Rightarrow> int \<Rightarrow> int \<Rightarrow> (u32 \<times> 'node) list \<Rightarrow> (int \<times> (u32 \<times> 'node) list) option"
where
  "removeNodeLoop k node i reps tbl =
     (if i < reps then
        (if length (getIterateHashKeyForNode k node i) = 0
         then removeNodeLoop k node (i + 1) (reps + 1) tbl
         else removeNodeLoop k node (i + int (length (getIterateHashKeyForNode k node i)))
                (fst (removePositions k node i 0 (getIterateHashKeyForNode k node i) reps tbl))
                (snd (removePositions k node i 0 (getIterateHashKeyForNode k node i) reps tbl)))
      else Some (reps, tbl))"

declare removeNodeLoop.simps [code]

fun removeEach :: "'node caps \<Rightarrow> int \<Rightarrow> 'node list \<Rightarrow> 'node HashRing \<Rightarrow> 'node HashRing option" where
  "removeEach k reps [] c = Some c"
| "removeEach k reps (node # rest) c =
     (case removeNodeLoop k node 0 reps (nodeByKey c) of
        None \<Rightarrow> None
      | Some (reps', tbl) \<Rightarrow>
          removeEach k reps' rest (c\<lparr>nodeByKey := tbl, allNodes := removeAll node (allNodes c)\<rparr>))"

definition removeNoWeightNodes ::
  "'node caps \<Rightarrow> 'node HashRing \<Rightarrow> 'node list \<Rightarrow> 'node HashRing option" where
  "removeNoWeightNodes k c nodes = map_option updateSortedNodes (removeEach k (numReps c) nodes c)"

subsection \<open>Replacing the membership, unweighted\<close>

definition nodesToBeRemoved :: "'node caps \<Rightarrow> 'node HashRing \<Rightarrow> 'node list \<Rightarrow> 'node list" where
  "nodesToBeRemoved k c nodes =
     filter (\<lambda>m. \<not> list_ex (\<lambda>v. isSameNode k m v) nodes) (allNodes c)"

definition nodesToBeAdded :: "'node caps \<Rightarrow> 'node HashRing \<Rightarrow> 'node list \<Rightarrow> 'node list" where
  "nodesToBeAdded k c nodes =
     filter (\<lambda>n. \<not> list_ex (\<lambda>v. isSameNode k n v) (allNodes c)) nodes"

text \<open>The test that chooses between \<^verbatim>\<open>RemoveAllNodes\<close> and the removal node by node.\<close>

definition takesFullClear :: "'node caps \<Rightarrow> 'node HashRing \<Rightarrow> 'node list \<Rightarrow> bool" where
  "takesFullClear k c nodes \<longleftrightarrow> length (nodesToBeRemoved k c nodes) = length nodes"

definition setNoWeightNodes ::
  "'node caps \<Rightarrow> 'node HashRing \<Rightarrow> 'node list \<Rightarrow> 'node HashRing option" where
  "setNoWeightNodes k c nodes =
     (case (if takesFullClear k c nodes then Some (RemoveAllNodes c)
            else removeNoWeightNodes k c (nodesToBeRemoved k c nodes)) of
        None \<Rightarrow> None
      | Some c1 \<Rightarrow> addNoWeightNodes k c1 (nodesToBeAdded k c1 nodes))"

subsection \<open>Weighted placement\<close>

definition weightOf :: "'node HashRing \<Rightarrow> 'node \<Rightarrow> int" where
  "weightOf c node = (case map_of (weightByNode c) node of Some w \<Rightarrow> w | None \<Rightarrow> 0)"

text \<open>
  \<^verbatim>\<open>(int)(math.Floor(percent*float64(numReps)*float64(nodeCount) + 1e10))\<close> with
  \<^verbatim>\<open>percent = float64(thisWeight) / float64(totalWeight)\<close>. The \<^verbatim>\<open>float64\<close> operations are
  taken exactly, over the rationals: the rounding of each operation is left out. With a
  total weight of zero the quotient is an infinity or not a number, and so is
  everything computed from it; its conversion to \<^verbatim>\<open>int\<close> is implementation-dependent.
\<close>

definition pointerPerServer :: "'node caps \<Rightarrow> int \<Rightarrow> int \<Rightarrow> int \<Rightarrow> int \<Rightarrow> int" where
  "pointerPerServer k thisWeight totalWeight reps nodeCount =
     (if totalWeight = 0 then nonFiniteToInt k
      else \<lfloor>(rat_of_int thisWeight / rat_of_int totalWeight) * rat_of_int reps
              * rat_of_int nodeCount + 10 ^ 10\<rfloor>)"

fun addWeighted ::
  "'node caps \<Rightarrow> int \<Rightarrow> int \<Rightarrow> int \<Rightarrow> 'node list \<Rightarrow> 'node HashRing \<Rightarrow> 'node HashRing option"
where
  "addWeighted k reps nodeCount totalWeight [] c = Some c"
| "addWeighted k reps nodeCount totalWeight (node # rest) c =
     (case addNodeWithoutSort k c node
             (pointerPerServer k (weightOf c node) totalWeight reps nodeCount) of
        None \<Rightarrow> None
      | Some c' \<Rightarrow> addWeighted k reps nodeCount totalWeight rest c')"

definition setWeightNodes ::
  "'node caps \<Rightarrow> 'node HashRing \<Rightarrow> 'node list \<Rightarrow> 'node HashRing option" where
  "setWeightNodes k c nodes =
     (let c0 = RemoveAllNodes c;
          nodeCount = int (length nodes);
          totalWeight = sum_list (map (weightOf c0) nodes)
      in map_option updateSortedNodes
           (addWeighted k (numReps c0) nodeCount totalWeight nodes c0))"

definition addWeightNodes ::
  "'node caps \<Rightarrow> 'node HashRing \<Rightarrow> 'node list \<Rightarrow> 'node HashRing option" where
  "addWeightNodes k c nodes = setWeightNodes k c (getAllNodes c @ nodes)"

definition removeWeightNodes ::
  "'node caps \<Rightarrow> 'node HashRing \<Rightarrow> 'node list \<Rightarrow> 'node HashRing option" where
  "removeWeightNodes k c nodes =
     (let c' = c\<lparr>allNodes := fold removeAll nodes (allNodes c)\<rparr>
      in setWeightNodes k c' (getAllNodes c'))"

subsection \<open>The public membership operations\<close>

definition AddNodes :: "'node caps \<Rightarrow> 'node HashRing \<Rightarrow> 'node list \<Rightarrow> 'node HashRing option" where
  "AddNodes k c nodes =
     (if isWeighted c then addWeightNodes k c nodes else addNoWeightNodes k c nodes)"

definition SetNodes :: "'node caps \<Rightarrow> 'node HashRing \<Rightarrow> 'node list \<Rightarrow> 'node HashRing option" where
  "SetNodes k c nodes =
     (if isWeighted c then setWeightNodes k c nodes else setNoWeightNodes k c nodes)"

definition RemoveNodes :: "'node caps \<Rightarrow> 'node HashRing \<Rightarrow> 'node list \<Rightarrow> 'node HashRing option" where
  "RemoveNodes k c nodes =
     (if isWeighted c then removeWeightNodes k c nodes else removeNoWeightNodes k c nodes)"

subsection \<open>Ring states\<close>

text \<open>The table has each position once (a Go map has each key once), and the index is
  the sorted list of the table's positions.\<close>

definition ringInv :: "'node HashRing \<Rightarrow> bool" where
  "ringInv c \<longleftrightarrow>
     distinct (map fst (nodeByKey c)) \<and> sortedKeys c = sort (map fst (nodeByKey c))"

text \<open>The rings a program can hold: a new ring, and whatever a public membership
  operation returns on such a ring.\<close>

inductive reachable :: "'node caps \<Rightarrow> 'node HashRing \<Rightarrow> bool" for k :: "'node caps" where
  reach_New: "reachable k (New reps weights weighted)"
| reach_Add: "reachable k c \<Longrightarrow> AddNodes k c nodes = Some c' \<Longrightarrow> reachable k c'"
| reach_Set: "reachable k c \<Longrightarrow> SetNodes k c nodes = Some c' \<Longrightarrow> reachable k c'"
| reach_Remove: "reachable k c \<Longrightarrow> RemoveNodes k c nodes = Some c' \<Longrightarrow> reachable k c'"
| reach_RemoveAll: "reachable k c \<Longrightarrow> reachable k (RemoveAllNodes c)"


subsection \<open>Concrete capabilities and rings\<close>

text \<open>Nodes are strings and label themselves. Two nodes, positions 10 and 20, and keys
  hashing onto, between and beyond them.\<close>

definition capsTwo :: "string caps" where
  "capsTwo = \<lparr>getIterateHashKeyForNode = (\<lambda>n i. if n = ''a'' then [10] else [20]),
     getHashKey = (\<lambda>s. if s = ''x'' then 10 else if s = ''y'' then 15 else 25),
     FormatNodeKey = (\<lambda>n i. n), zeroN = [], nonFiniteToInt = 0\<rparr>"

definition ringTwo :: "string HashRing" where
  "ringTwo = \<lparr>sortedKeys = [10, 20], nodeByKey = [(20, ''b''), (10, ''a'')],
     allNodes = [''a'', ''b''], weightByNode = [], isWeighted = False, numReps = 1\<rparr>"

text \<open>A hash under which replicas 0 and 1 of a node fall on the same position.\<close>

definition capsSelf :: "string caps" where
  "capsSelf = \<lparr>getIterateHashKeyForNode =
       (\<lambda>n i. if i = 0 then [10] else if i = 1 then [10] else [20]),
     getHashKey = (\<lambda>s. 5), FormatNodeKey = (\<lambda>n i. n), zeroN = [], nonFiniteToInt = 0\<rparr>"

definition ringSelfAdded :: "string HashRing" where
  "ringSelfAdded = \<lparr>sortedKeys = [10, 20], nodeByKey = [(10, ''a''), (20, ''a'')],
     allNodes = [''a''], weightByNode = [], isWeighted = False, numReps = 2\<rparr>"

definition ringOrphan :: "string HashRing" where
  "ringOrphan = \<lparr>sortedKeys = [20], nodeByKey = [(20, ''a'')],
     allNodes = [], weightByNode = [], isWeighted = False, numReps = 2\<rparr>"

text \<open>A hash under which replica 0 of node a falls on the position of node b.\<close>

definition capsColl :: "string caps" where
  "capsColl = \<lparr>getIterateHashKeyForNode =
       (\<lambda>n i. if n = ''b'' then [10] else if i = 0 then [10] else if i = 1 then [20] else [30]),
     getHashKey = (\<lambda>s. 5), FormatNodeKey = (\<lambda>n i. n), zeroN = [], nonFiniteToInt = 0\<rparr>"

definition ringColl :: "string HashRing" where
  "ringColl = \<lparr>sortedKeys = [10, 20], nodeByKey = [(10, ''b''), (20, ''a'')],
     allNodes = [''b'', ''a''], weightByNode = [], isWeighted = False, numReps = 1\<rparr>"

definition ringCollSet :: "string HashRing" where
  "ringCollSet = \<lparr>sortedKeys = [10], nodeByKey = [(10, ''a'')],
     allNodes = [''a''], weightByNode = [], isWeighted = False, numReps = 1\<rparr>"

text \<open>A hash that derives no position for replica 0.\<close>

definition capsGap :: "string caps" where
  "capsGap = \<lparr>getIterateHashKeyForNode =
       (\<lambda>n i. if i = 0 then [] else if i = 1 then [10] else [20]),
     getHashKey = (\<lambda>s. 5), FormatNodeKey = (\<lambda>n i. n), zeroN = [], nonFiniteToInt = 0\<rparr>"

definition ringGap :: "string HashRing" where
  "ringGap = \<lparr>sortedKeys = [], nodeByKey = [], allNodes = [''a''], weightByNode = [],
     isWeighted = False, numReps = 2\<rparr>"


definition ringWeighted :: "string HashRing" where
  "ringWeighted = New 160 [(''a'', 1), (''b'', 3)] True"




section \<open>Properties\<close>

subsection \<open>The binary search\<close>

lemma BinarySearchLoop_least:
  "sorted x \<Longrightarrow> i \<le> j \<Longrightarrow> j \<le> length x
   \<Longrightarrow> \<forall>m<i. x ! m < t \<Longrightarrow> \<forall>m. j \<le> m \<and> m < length x \<longrightarrow> t \<le> x ! m
   \<Longrightarrow> BinarySearchLoop x t i j \<le> length x
       \<and> (\<forall>m<BinarySearchLoop x t i j. x ! m < t)
       \<and> (\<forall>m. BinarySearchLoop x t i j \<le> m \<and> m < length x \<longrightarrow> t \<le> x ! m)"
proof (induction x t i j rule: BinarySearchLoop.induct)
  case (1 x target i j)
  show ?case
  proof (cases "i < j")
    case False
    with "1.prems" have "i = j" by simp
    with "1.prems" show ?thesis by (simp add: BinarySearchLoop.simps [of x target j j])
  next
    case True
    define h where "h = (i + j) div 2"
    have hb: "i \<le> h" "h < j" using True by (simp_all add: h_def)
    show ?thesis
    proof (cases "tailCmp (x ! h) target < 0")
      case lt: True
      then have lt': "x ! h < target" by (simp add: tailCmp_def split: if_splits)
      have low: "\<forall>m<h + 1. x ! m < target"
      proof (intro allI impI)
        fix m assume "m < h + 1"
        then have "m \<le> h" by simp
        with "1.prems" hb have "x ! m \<le> x ! h" by (simp add: sorted_nth_mono)
        with lt' show "x ! m < target" by simp
      qed
      have step: "BinarySearchLoop x target i j = BinarySearchLoop x target (h + 1) j"
        using True lt by (subst BinarySearchLoop.simps) (simp add: h_def Let_def)
      have "h + 1 \<le> j" using hb by simp
      from "1.IH"(1) [OF True h_def lt "1.prems"(1) this "1.prems"(3) low "1.prems"(5)]
      show ?thesis by (simp add: step)
    next
      case ge: False
      then have ge': "target \<le> x ! h" by (simp add: tailCmp_def split: if_splits)
      have high: "\<forall>m. h \<le> m \<and> m < length x \<longrightarrow> target \<le> x ! m"
      proof (intro allI impI)
        fix m assume "h \<le> m \<and> m < length x"
        with "1.prems" have "x ! h \<le> x ! m" by (simp add: sorted_nth_mono)
        with ge' show "target \<le> x ! m" by simp
      qed
      have step: "BinarySearchLoop x target i j = BinarySearchLoop x target i h"
        using True ge by (subst BinarySearchLoop.simps) (simp add: h_def Let_def)
      have "h \<le> length x" using hb "1.prems" by simp
      from "1.IH"(2) [OF True h_def ge "1.prems"(1) hb(1) this "1.prems"(4) high]
      show ?thesis by (simp add: step)
    qed
  qed
qed

lemma tailSearch_least:
  assumes "sorted (sortedKeys c)"
  shows "fst (tailSearch c t) \<le> length (sortedKeys c)
     \<and> snd (tailSearch c t) = (fst (tailSearch c t) < length (sortedKeys c))
     \<and> (\<forall>m<fst (tailSearch c t). sortedKeys c ! m < t)
     \<and> (\<forall>m. fst (tailSearch c t) \<le> m \<and> m < length (sortedKeys c) \<longrightarrow> t \<le> sortedKeys c ! m)"
proof -
  let ?x = "sortedKeys c"
  let ?r = "BinarySearchLoop ?x t 0 (length ?x)"
  have r: "?r \<le> length ?x \<and> (\<forall>m<?r. ?x ! m < t) \<and> (\<forall>m. ?r \<le> m \<and> m < length ?x \<longrightarrow> t \<le> ?x ! m)"
    using assms by (intro BinarySearchLoop_least) auto
  then have "?r < length ?x \<Longrightarrow> tailCmp (?x ! ?r) t = 0"
    by (simp add: tailCmp_def)
  with r show ?thesis
    by (auto simp: tailSearch_def BinarySearchFunc_def Let_def)
qed


lemma ringInv_sorted: "ringInv c \<Longrightarrow> sorted (sortedKeys c)"
  by (simp add: ringInv_def)

lemma ringInv_set: "ringInv c \<Longrightarrow> set (sortedKeys c) = dom (map_of (nodeByKey c))"
  by (simp add: ringInv_def dom_map_of_conv_image_fst)

lemma ringInv_length: "ringInv c \<Longrightarrow> length (sortedKeys c) = length (nodeByKey c)"
  by (simp add: ringInv_def)

lemma index_owner:
  assumes "ringInv c" and "i < length (sortedKeys c)"
  shows "\<exists>n. map_of (nodeByKey c) (sortedKeys c ! i) = Some n
            \<and> getNodeByHashKeyIndex k c i = Inr n"
proof -
  have "sortedKeys c ! i \<in> dom (map_of (nodeByKey c))"
    using assms ringInv_set [OF assms(1)] nth_mem by blast
  then obtain n where "map_of (nodeByKey c) (sortedKeys c ! i) = Some n" by blast
  with assms(2) show ?thesis by (simp add: getNodeByHashKeyIndex_def)
qed

lemma sorted_least_index_Min:
  assumes "sorted xs" and "r < length xs" and "\<forall>m<r. xs ! m < t"
    and "t \<le> xs ! r"
  shows "Min {q \<in> set xs. t \<le> q} = xs ! r"
proof (rule Min_eqI)
  show "finite {q \<in> set xs. t \<le> q}" by simp
  show "xs ! r \<in> {q \<in> set xs. t \<le> q}" using assms by simp
  fix y assume "y \<in> {q \<in> set xs. t \<le> q}"
  then obtain m where m: "m < length xs" "xs ! m = y" "t \<le> y"
    by (auto simp: in_set_conv_nth)
  have "\<not> m < r" using assms(3) m by auto
  then have "r \<le> m" by simp
  with assms(1) m show "xs ! r \<le> y" using sorted_nth_mono by blast
qed

lemma sorted_first_Min:
  assumes "sorted xs" and "xs \<noteq> []"
  shows "Min (set xs) = xs ! 0"
proof (rule Min_eqI)
  show "finite (set xs)" by simp
  show "xs ! 0 \<in> set xs" using assms by simp
  fix y assume "y \<in> set xs"
  then obtain m where "m < length xs" "xs ! m = y" by (auto simp: in_set_conv_nth)
  with assms(1) show "xs ! 0 \<le> y" using sorted_nth_mono by blast
qed

lemma getNodeByHashKey_exact:
  assumes "ringInv c" and "nodeByKey c \<noteq> []" and "map_of (nodeByKey c) h = Some n"
  shows "getNodeByHashKey k c h = Inr (n, True)"
  using assms ringInv_length [OF assms(1)] by (simp add: getNodeByHashKey_def)

lemma getNodeByHashKey_next:
  assumes inv: "ringInv c" and ne: "nodeByKey c \<noteq> []"
    and miss: "h \<notin> set (sortedKeys c)" and ex: "\<exists>q\<in>set (sortedKeys c). h \<le> q"
  shows "\<exists>n. map_of (nodeByKey c) (Min {q \<in> set (sortedKeys c). h \<le> q}) = Some n
            \<and> getNodeByHashKey k c h = Inr (n, True)"
proof -
  let ?xs = "sortedKeys c"
  let ?r = "fst (tailSearch c h)"
  note ts = tailSearch_least [OF ringInv_sorted [OF inv], of h]
  have lt: "?r < length ?xs"
  proof (rule ccontr)
    assume "\<not> ?r < length ?xs"
    with ts have "\<forall>m<length ?xs. ?xs ! m < h" by simp
    with ex show False by (metis in_set_conv_nth leD)
  qed
  with ts have found: "snd (tailSearch c h)" and ge: "h \<le> ?xs ! ?r" by simp_all
  from index_owner [OF inv lt, of k] obtain n
    where n: "map_of (nodeByKey c) (?xs ! ?r) = Some n" "getNodeByHashKeyIndex k c ?r = Inr n"
    by blast
  have m: "Min {q \<in> set ?xs. h \<le> q} = ?xs ! ?r"
    using ts lt ge by (intro sorted_least_index_Min ringInv_sorted [OF inv]) simp_all
  have none: "map_of (nodeByKey c) h = None"
    using miss ringInv_set [OF inv] by blast
  have len: "length ?xs \<noteq> 0" using ne ringInv_length [OF inv] by simp
  have "getNodeByHashKey k c h = Inr (n, True)"
    using none len found n(2) by (simp add: getNodeByHashKey_def case_prod_unfold)
  with n(1) m show ?thesis by simp
qed

lemma getNodeByHashKey_wrap:
  assumes inv: "ringInv c" and ne: "nodeByKey c \<noteq> []"
    and all: "\<forall>q\<in>set (sortedKeys c). q < h"
  shows "\<exists>n. map_of (nodeByKey c) (sortedKeys c ! 0) = Some n
            \<and> Min (set (sortedKeys c)) = sortedKeys c ! 0
            \<and> getNodeByHashKey k c h = Inr (n, True)"
proof -
  let ?xs = "sortedKeys c"
  let ?r = "fst (tailSearch c h)"
  note ts = tailSearch_least [OF ringInv_sorted [OF inv], of h]
  have len: "0 < length ?xs" using ne ringInv_length [OF inv] by simp
  have nf: "\<not> snd (tailSearch c h)"
  proof
    assume "snd (tailSearch c h)"
    with ts have "?r < length ?xs" "h \<le> ?xs ! ?r" by simp_all
    with all show False using nth_mem by fastforce
  qed
  from index_owner [OF inv len, of k] obtain n
    where n: "map_of (nodeByKey c) (?xs ! 0) = Some n" "getNodeByHashKeyIndex k c 0 = Inr n"
    by blast
  have "h \<notin> set ?xs" using all by auto
  then have none: "map_of (nodeByKey c) h = None"
    using ringInv_set [OF inv] by blast
  have "getNodeByHashKey k c h = Inr (n, True)"
    using none len nf n(2) by (simp add: getNodeByHashKey_def case_prod_unfold)
  moreover have "Min (set ?xs) = ?xs ! 0"
    using len by (intro sorted_first_Min ringInv_sorted [OF inv]) auto
  ultimately show ?thesis using n(1) by simp
qed

subsection \<open>Every reachable ring has a sorted, duplicate-free index of its table\<close>

lemma addPositions_distinct:
  "distinct (map fst tbl) \<Longrightarrow> distinct (map fst (snd (addPositions node i j ps reps tbl)))"
  by (induction node i j ps reps tbl rule: addPositions.induct) (auto simp: distinct_update)

lemma addNodeLoop_distinct:
  "addNodeLoop k node i reps tbl = Some tbl' \<Longrightarrow> distinct (map fst tbl) \<Longrightarrow> distinct (map fst tbl')"
proof (induction arbitrary: rule: addNodeLoop.raw_induct [rotated 1, consumes 1])
  case (1 f k node i reps tbl tbl')
  then show ?case
    by (auto split: if_splits simp: addPositions_distinct)
qed

lemma addNodeWithoutSort_distinct:
  "addNodeWithoutSort k c node reps = Some c' \<Longrightarrow> distinct (map fst (nodeByKey c))
   \<Longrightarrow> distinct (map fst (nodeByKey c'))"
  by (auto simp: addNodeWithoutSort_def split: option.splits dest: addNodeLoop_distinct)

lemma addEach_distinct:
  "addEach k reps nodes c = Some c' \<Longrightarrow> distinct (map fst (nodeByKey c))
   \<Longrightarrow> distinct (map fst (nodeByKey c'))"
  by (induction nodes arbitrary: c) (auto split: option.splits dest: addNodeWithoutSort_distinct)

lemma updateSortedNodes_ringInv:
  "distinct (map fst (nodeByKey c)) \<Longrightarrow> ringInv (updateSortedNodes c)"
  by (simp add: ringInv_def updateSortedNodes_def)

lemma addNoWeightNodes_ringInv:
  "addNoWeightNodes k c nodes = Some c' \<Longrightarrow> distinct (map fst (nodeByKey c)) \<Longrightarrow> ringInv c'"
  by (auto simp: addNoWeightNodes_def dest: addEach_distinct intro: updateSortedNodes_ringInv)

lemma removePositions_distinct:
  "distinct (map fst tbl) \<Longrightarrow> distinct (map fst (snd (removePositions k node i j ps reps tbl)))"
  by (induction k node i j ps reps tbl rule: removePositions.induct)
     (auto simp: distinct_delete split: option.splits)

lemma removeNodeLoop_distinct:
  "removeNodeLoop k node i reps tbl = Some r \<Longrightarrow> distinct (map fst tbl) \<Longrightarrow> distinct (map fst (snd r))"
proof (induction rule: removeNodeLoop.raw_induct [rotated 1, consumes 1])
  case (1 f k node i reps tbl r)
  then show ?case
    by (auto split: if_splits simp: removePositions_distinct)
qed

lemma removeEach_distinct:
  "removeEach k reps nodes c = Some c' \<Longrightarrow> distinct (map fst (nodeByKey c))
   \<Longrightarrow> distinct (map fst (nodeByKey c'))"
proof (induction nodes arbitrary: c reps)
  case Nil
  then show ?case by simp
next
  case (Cons node rest)
  from Cons.prems(1) obtain reps' tbl where
    l: "removeNodeLoop k node 0 reps (nodeByKey c) = Some (reps', tbl)" and
    r: "removeEach k reps' rest (c\<lparr>nodeByKey := tbl, allNodes := removeAll node (allNodes c)\<rparr>) = Some c'"
    by (auto split: option.splits)
  from removeNodeLoop_distinct [OF l Cons.prems(2)] have "distinct (map fst tbl)" by simp
  with Cons.IH [OF r] show ?case by simp
qed

lemma removeNoWeightNodes_ringInv:
  "removeNoWeightNodes k c nodes = Some c' \<Longrightarrow> distinct (map fst (nodeByKey c)) \<Longrightarrow> ringInv c'"
  by (auto simp: removeNoWeightNodes_def dest: removeEach_distinct intro: updateSortedNodes_ringInv)

lemma RemoveAllNodes_ringInv: "ringInv (RemoveAllNodes c)"
  by (simp add: ringInv_def RemoveAllNodes_def)

lemma setNoWeightNodes_ringInv:
  "setNoWeightNodes k c nodes = Some c' \<Longrightarrow> distinct (map fst (nodeByKey c)) \<Longrightarrow> ringInv c'"
  by (auto simp: setNoWeightNodes_def ringInv_def split: option.splits if_splits
           dest!: removeNoWeightNodes_ringInv addNoWeightNodes_ringInv
           simp: RemoveAllNodes_def)

lemma addWeighted_distinct:
  "addWeighted k reps cnt tw nodes c = Some c' \<Longrightarrow> distinct (map fst (nodeByKey c))
   \<Longrightarrow> distinct (map fst (nodeByKey c'))"
  by (induction nodes arbitrary: c) (auto split: option.splits dest: addNodeWithoutSort_distinct)

lemma setWeightNodes_ringInv:
  "setWeightNodes k c nodes = Some c' \<Longrightarrow> ringInv c'"
  by (auto simp: setWeightNodes_def Let_def RemoveAllNodes_def
           dest!: addWeighted_distinct intro: updateSortedNodes_ringInv)

lemma AddNodes_ringInv:
  "AddNodes k c nodes = Some c' \<Longrightarrow> ringInv c \<Longrightarrow> ringInv c'"
  by (auto simp: AddNodes_def addWeightNodes_def ringInv_def split: if_splits
           dest: setWeightNodes_ringInv addNoWeightNodes_ringInv)

lemma SetNodes_ringInv:
  "SetNodes k c nodes = Some c' \<Longrightarrow> ringInv c \<Longrightarrow> ringInv c'"
  by (auto simp: SetNodes_def ringInv_def split: if_splits
           dest: setWeightNodes_ringInv setNoWeightNodes_ringInv)

lemma RemoveNodes_ringInv:
  "RemoveNodes k c nodes = Some c' \<Longrightarrow> ringInv c \<Longrightarrow> ringInv c'"
  by (auto simp: RemoveNodes_def removeWeightNodes_def Let_def ringInv_def split: if_splits
           dest: setWeightNodes_ringInv removeNoWeightNodes_ringInv)

lemma reachable_ringInv: "reachable k c \<Longrightarrow> ringInv c"
proof (induction rule: reachable.induct)
  case (reach_New reps weights weighted)
  show ?case by (simp add: ringInv_def New_def)
next
  case (reach_RemoveAll c)
  show ?case by (rule RemoveAllNodes_ringInv)
qed (auto dest: AddNodes_ringInv SetNodes_ringInv RemoveNodes_ringInv)

subsection \<open>Resolution\<close>

text \<open>
  C7. On a ring whose index is the sorted list of a non-empty table, \<^verbatim>\<open>Get\<close> finds a
  node for every key: the owner of the key's hash position when that position is
  stored; otherwise the owner of the smallest stored position not below it; and, when
  every stored position is below it, the owner of the first entry of the index, which
  is the smallest stored position. Every reachable ring is such a ring
  (\<open>reachable_ringInv\<close>).
\<close>

theorem Get_resolution_rule:
  assumes "ringInv c" and "nodeByKey c \<noteq> []"
  shows "(getHashKey k name \<in> set (sortedKeys c) \<longrightarrow>
            (\<exists>n. map_of (nodeByKey c) (getHashKey k name) = Some n
                 \<and> Get k c name = Inr (n, True)))
       \<and> (getHashKey k name \<notin> set (sortedKeys c)
            \<and> (\<exists>q\<in>set (sortedKeys c). getHashKey k name \<le> q) \<longrightarrow>
            (\<exists>n. map_of (nodeByKey c)
                    (Min {q \<in> set (sortedKeys c). getHashKey k name \<le> q}) = Some n
                 \<and> Get k c name = Inr (n, True)))
       \<and> ((\<forall>q\<in>set (sortedKeys c). q < getHashKey k name) \<longrightarrow>
            (\<exists>n. map_of (nodeByKey c) (sortedKeys c ! 0) = Some n
                 \<and> Min (set (sortedKeys c)) = sortedKeys c ! 0
                 \<and> Get k c name = Inr (n, True)))"
proof -
  have G: "Get k c name = getNodeByHashKey k c (getHashKey k name)"
    using assms(2) by (simp add: Get_def getPrimaryNode_def)
  have "getHashKey k name \<in> set (sortedKeys c) \<Longrightarrow>
          \<exists>n. map_of (nodeByKey c) (getHashKey k name) = Some n \<and> Get k c name = Inr (n, True)"
    using getNodeByHashKey_exact [OF assms] ringInv_set [OF assms(1)] G by fastforce
  moreover note getNodeByHashKey_next [OF assms, of "getHashKey k name" k]
    getNodeByHashKey_wrap [OF assms, of "getHashKey k name" k]
  ultimately show ?thesis unfolding G by blast
qed

theorem Get_resolution_rule_witness:
  "ringInv ringTwo \<and> nodeByKey ringTwo \<noteq> []
   \<and> Get capsTwo ringTwo ''x'' = Inr (''a'', True)
   \<and> Get capsTwo ringTwo ''y'' = Inr (''b'', True)
   \<and> Get capsTwo ringTwo ''z'' = Inr (''a'', True)"
proof -
  have inv: "ringInv ringTwo" by (simp add: ringInv_def ringTwo_def)
  have ne: "nodeByKey ringTwo \<noteq> []" by (simp add: ringTwo_def)
  have x: "Get capsTwo ringTwo ''x'' = Inr (''a'', True)"
    using Get_resolution_rule [OF inv ne, of capsTwo "''x''"]
    by (simp add: ringTwo_def capsTwo_def)
  have "{q. (q = 10 \<or> q = 20) \<and> (15::u32) \<le> q} = {20}" by auto
  then have y: "Get capsTwo ringTwo ''y'' = Inr (''b'', True)"
    using Get_resolution_rule [OF inv ne, of capsTwo "''y''"]
    by (simp add: ringTwo_def capsTwo_def)
  have z: "Get capsTwo ringTwo ''z'' = Inr (''a'', True)"
    using Get_resolution_rule [OF inv ne, of capsTwo "''z''"]
    by (simp add: ringTwo_def capsTwo_def)
  from inv ne x y z show ?thesis by simp
qed

subsection \<open>Clearing\<close>

text \<open>
  C6, as the code has it. \<^verbatim>\<open>RemoveAllNodes\<close> empties the index, the table and the
  members, and leaves the weights, the mode and the replica count as they were: the
  weighted placement clears the ring with it and then reads the weights.
\<close>

theorem RemoveAllNodes_resets_three:
  "sortedKeys (RemoveAllNodes c) = [] \<and> nodeByKey (RemoveAllNodes c) = []
   \<and> allNodes (RemoveAllNodes c) = []
   \<and> weightByNode (RemoveAllNodes c) = weightByNode c
   \<and> isWeighted (RemoveAllNodes c) = isWeighted c
   \<and> numReps (RemoveAllNodes c) = numReps c"
  by (simp add: RemoveAllNodes_def)

text \<open>C6 as stated fails: the weights of a weighted ring are still there after the
  clearing.\<close>

theorem RemoveAllNodes_keeps_weights_example:
  "weightByNode (RemoveAllNodes ringWeighted) \<noteq> []"
  by (simp add: RemoveAllNodes_def ringWeighted_def New_def)

subsection \<open>Membership after the operations\<close>




lemma allNodes_updateSortedNodes [simp]: "allNodes (updateSortedNodes c) = allNodes c"
  by (simp add: updateSortedNodes_def)

lemma nodeByKey_updateSortedNodes [simp]: "nodeByKey (updateSortedNodes c) = nodeByKey c"
  by (simp add: updateSortedNodes_def)









subsection \<open>Positions touched by a removal\<close>





subsection \<open>Which nodes are members\<close>







subsection \<open>Positions left behind by a removal\<close>

lemma add_self: "AddNodes capsSelf (New 2 [] False) [''a''] = Some ringSelfAdded"
  by code_simp

lemma remove_self: "RemoveNodes capsSelf ringSelfAdded [''a''] = Some ringOrphan"
  by code_simp

text \<open>
  C1 at a failing input. Replicas 0 and 1 of node a hash to position 10 and replica 2 to
  position 20, with two replicas per node. Adding a passes over the second 10 and
  places 10 and 20. Removing a deletes 10, finds nothing at the second 10, and stops
  after two replicas: position 20 stays in the table, owned by a, while the members are
  empty. \<^verbatim>\<open>Get\<close> then finds the removed node on a ring without members.
\<close>

theorem Get_returns_removed_node:
  "AddNodes capsSelf (New 2 [] False) [''a''] = Some ringSelfAdded
   \<and> RemoveNodes capsSelf ringSelfAdded [''a''] = Some ringOrphan
   \<and> allNodes ringOrphan = []
   \<and> Get capsSelf ringOrphan ''k'' = Inr (''a'', True)"
proof -
  have "allNodes ringOrphan = []" by (simp add: ringOrphan_def)
  moreover have "Get capsSelf ringOrphan ''k'' = Inr (''a'', True)" by code_simp
  ultimately show ?thesis using add_self remove_self by simp
qed

text \<open>
  C8 at the same failing input: on the ring left by adding and removing node a, which
  has no member, the traversal yields one node, the removed a.
\<close>

theorem GetSince_yields_removed_node:
  "AddNodes capsSelf (New 2 [] False) [''a''] = Some ringSelfAdded
   \<and> RemoveNodes capsSelf ringSelfAdded [''a''] = Some ringOrphan
   \<and> length (allNodes ringOrphan) = 0
   \<and> GetSince capsSelf ringOrphan ''k'' = Inr [''a'']"
proof -
  have "length (allNodes ringOrphan) = 0" by (simp add: ringOrphan_def)
  moreover have "GetSince capsSelf ringOrphan ''k'' = Inr [''a'']" by code_simp
  ultimately show ?thesis using add_self remove_self by simp
qed

text \<open>
  C10 at a failing input, on the same ring. \<^verbatim>\<open>SetNodes\<close> with the empty list, called on the
  ring that holds node a, removes a and leaves position 20 behind; called again it
  clears the table. The second call changes the state the first one left.
\<close>

theorem SetNodes_twice_differs:
  "AddNodes capsSelf (New 2 [] False) [''a''] = Some ringSelfAdded
   \<and> SetNodes capsSelf ringSelfAdded [] = Some ringOrphan
   \<and> SetNodes capsSelf ringOrphan [] = Some (RemoveAllNodes ringOrphan)
   \<and> nodeByKey ringOrphan = [(20, ''a'')]
   \<and> nodeByKey (RemoveAllNodes ringOrphan) = []"
proof -
  have "SetNodes capsSelf ringSelfAdded [] = Some ringOrphan" by code_simp
  moreover have "SetNodes capsSelf ringOrphan [] = Some (RemoveAllNodes ringOrphan)"
    by code_simp
  ultimately show ?thesis using add_self by (simp add: ringOrphan_def RemoveAllNodes_def)
qed

subsection \<open>The test for the clearing path of SetNodes\<close>

lemma add_coll: "AddNodes capsColl (New 1 [] False) [''b'', ''a''] = Some ringColl"
  by code_simp

text \<open>
  C3 at two failing inputs. The ring holds b and a. With the new list [a] the members to
  remove are [b], not the whole membership, and the clearing path is taken, because
  one node is to be removed and the new list has one entry. With the empty new list the
  members to remove are all the members, and the clearing path is not taken, because
  two is not the length of the empty list.
\<close>

theorem full_clear_test_compares_with_new_list:
  "AddNodes capsColl (New 1 [] False) [''b'', ''a''] = Some ringColl
   \<and> allNodes ringColl = [''b'', ''a'']
   \<and> nodesToBeRemoved capsColl ringColl [''a''] = [''b'']
   \<and> takesFullClear capsColl ringColl [''a'']
   \<and> nodesToBeRemoved capsColl ringColl [] = allNodes ringColl
   \<and> \<not> takesFullClear capsColl ringColl []"
proof -
  have "allNodes ringColl = [''b'', ''a'']" by (simp add: ringColl_def)
  moreover have "nodesToBeRemoved capsColl ringColl [''a''] = [''b'']" by code_simp
  moreover have "takesFullClear capsColl ringColl [''a'']" by code_simp
  moreover have "nodesToBeRemoved capsColl ringColl [] = allNodes ringColl" by code_simp
  moreover have "\<not> takesFullClear capsColl ringColl []" by code_simp
  ultimately show ?thesis using add_coll by simp
qed

text \<open>
  C4 at a failing input. On the ring that holds b at position 10 and a at position 20
  (replica 0 of a hashes to 10, which b had taken), \<^verbatim>\<open>SetNodes\<close> with the list [a] clears
  the ring and places a again: a is a member before and after, and its position has
  moved from 20 to 10.
\<close>

theorem SetNodes_moves_kept_node:
  "AddNodes capsColl (New 1 [] False) [''b'', ''a''] = Some ringColl
   \<and> SetNodes capsColl ringColl [''a''] = Some ringCollSet
   \<and> ''a'' \<in> set (allNodes ringColl) \<and> ''a'' \<in> set (allNodes ringCollSet)
   \<and> map_of (nodeByKey ringColl) 20 = Some ''a''
   \<and> map_of (nodeByKey ringColl) 10 = Some ''b''
   \<and> map_of (nodeByKey ringCollSet) 20 = None
   \<and> map_of (nodeByKey ringCollSet) 10 = Some ''a''"
proof -
  have "SetNodes capsColl ringColl [''a''] = Some ringCollSet" by code_simp
  then show ?thesis using add_coll by (simp add: ringColl_def ringCollSet_def)
qed

subsection \<open>A replica without positions\<close>

text \<open>
  C5 at a failing input. Replica 0 of node a derives no position, replica 1 derives 10
  and replica 2 derives 20, with two replicas per node. \<^verbatim>\<open>AddNodes\<close> leaves the placement
  loop at replica 0: a becomes a member that owns no position. The removal loop, given
  the same replicas, passes over replica 0 and goes on to delete 10 and 20.
\<close>

theorem empty_batch_stops_placement:
  "AddNodes capsGap (New 2 [] False) [''a''] = Some ringGap
   \<and> nodeByKey ringGap = [] \<and> allNodes ringGap = [''a'']
   \<and> removeNodeLoop capsGap ''a'' 0 2 [(10, ''a''), (20, ''a'')] = Some (3, [])"
proof -
  have "AddNodes capsGap (New 2 [] False) [''a''] = Some ringGap" by code_simp
  moreover have "removeNodeLoop capsGap ''a'' 0 2 [(10, ''a''), (20, ''a'')] = Some (3, [])"
    by code_simp
  ultimately show ?thesis by (simp add: ringGap_def)
qed

subsection \<open>The weighted target\<close>






end
